theory Spec2Isabelle
  imports Main "HOL-Library.Word"
begin

section \<open>The Collatz chain search of \<^verbatim>\<open>src/modules/wasm/collatz.c\<close>\<close>

text \<open>
  The program has three functions over \<^verbatim>\<open>unsigned int\<close>: \<^verbatim>\<open>nextTerm\<close>,
  \<^verbatim>\<open>collatzChainLength\<close> and \<^verbatim>\<open>determineLongestChain\<close>. The module is built
  for WebAssembly, where \<^verbatim>\<open>unsigned int\<close> has 32 bits: values are modelled as
  \<open>32 word\<close>, whose \<open>+\<close> and \<open>*\<close> wrap around modulo \<open>2 ^ 32\<close> as C's unsigned
  arithmetic does, and whose \<open>div\<close>, \<open>mod\<close> and \<open><\<close> are the unsigned ones.
\<close>

type_synonym u32 = "32 word"

subsection \<open>nextTerm\<close>

text \<open>
  \<^verbatim>\<open>if (term % 2) return 3 * term + 1; return term / 2;\<close>
\<close>

definition nextTerm :: "u32 \<Rightarrow> u32" where
  "nextTerm term = (if term mod 2 \<noteq> 0 then 3 * term + 1 else term div 2)"

subsection \<open>collatzChainLength\<close>

text \<open>
  The \<^verbatim>\<open>while (n > 1)\<close> loop has no bound of its own, so it is a partial function:
  \<open>None\<close> stands for a loop that never ends. Its state is the pair of the locals
  \<^verbatim>\<open>n\<close> and \<^verbatim>\<open>termsCount\<close>; the third component, \<open>calls\<close>, is a ghost counter that
  is not in the C code: it counts the invocations of \<^verbatim>\<open>nextTerm\<close> and never
  influences \<^verbatim>\<open>n\<close> or \<^verbatim>\<open>termsCount\<close>.
\<close>

partial_function (option) chainLoop :: "u32 \<Rightarrow> u32 \<Rightarrow> nat \<Rightarrow> (u32 \<times> nat) option" where
  "chainLoop n termsCount calls =
     (if n > 1 then chainLoop (nextTerm n) (termsCount + 1) (Suc calls)
      else Some (termsCount, calls))"

text \<open>
  \<^verbatim>\<open>n = number; termsCount = 1; if (number > 1) { while ... } return termsCount;\<close>
  The run returns \<^verbatim>\<open>termsCount\<close> together with the ghost count of \<^verbatim>\<open>nextTerm\<close> calls.
\<close>

definition collatzChainLength_run :: "u32 \<Rightarrow> (u32 \<times> nat) option" where
  "collatzChainLength_run number =
     (if number > 1 then chainLoop number 1 0 else Some (1, 0))"

definition collatzChainLength :: "u32 \<Rightarrow> u32 option" where
  "collatzChainLength number = map_option fst (collatzChainLength_run number)"

subsection \<open>determineLongestChain\<close>

text \<open>
  The candidates in scan order: \<open>1, 2, \<dots>, upperBound\<close>.
\<close>

definition candidates :: "u32 \<Rightarrow> u32 list" where
  "candidates upperBound = map of_nat [1 ..< Suc (unat upperBound)]"

text \<open>
  The \<^verbatim>\<open>for (i = 0; i < upperBound; ++i)\<close> loop. The two cells of \<^verbatim>\<open>lgChain\<close> are
  the pair \<open>lgChain\<close> (\<open>fst\<close> is \<^verbatim>\<open>lgChain[0]\<close>, \<open>snd\<close> is \<^verbatim>\<open>lgChain[1]\<close>). A call of
  \<^verbatim>\<open>collatzChainLength\<close> that never returns makes the whole loop never return
  (\<open>None\<close>). The list \<open>examined\<close> is a ghost trace that is not in the C code: it
  records, in order, every argument handed to \<^verbatim>\<open>collatzChainLength\<close>, also the one
  of a call that does not return.
\<close>

function searchLoop ::
  "u32 \<Rightarrow> u32 \<Rightarrow> u32 \<times> u32 \<Rightarrow> u32 list \<Rightarrow> (u32 \<times> u32) option \<times> u32 list" where
  "searchLoop upperBound i lgChain examined =
     (if i < upperBound then
        (case collatzChainLength (i + 1) of
           None \<Rightarrow> (None, examined @ [i + 1])
         | Some calculatedLength \<Rightarrow>
             searchLoop upperBound (i + 1)
               (if calculatedLength > snd lgChain then (i + 1, calculatedLength) else lgChain)
               (examined @ [i + 1]))
      else (Some lgChain, examined))"
  by pat_completeness auto

termination
proof (relation "measure (\<lambda>(upperBound, i, lgChain, examined). unat upperBound - unat i)")
  show "wf (measure (\<lambda>(upperBound, i, lgChain, examined). unat upperBound - unat i))"
    by simp
next
  fix upperBound i :: u32 and lgChain :: "u32 \<times> u32" and examined :: "u32 list"
    and calculatedLength :: u32
  assume "i < upperBound"
  then have below: "unat i < unat upperBound"
    by (simp add: word_less_nat_alt)
  moreover have "unat upperBound < 2 ^ 32"
    using unsigned_less [of upperBound] by simp
  ultimately have "unat i + 1 < 2 ^ 32"
    by simp
  then have "unat (i + 1) = Suc (unat i)"
    by (simp add: unat_word_ariths)
  with below show "((upperBound, i + 1,
       if snd lgChain < calculatedLength then (i + 1, calculatedLength) else lgChain,
       examined @ [i + 1]), upperBound, i, lgChain, examined)
      \<in> measure (\<lambda>(upperBound, i, lgChain, examined). unat upperBound - unat i)"
    by simp
qed

text \<open>
  \<^verbatim>\<open>lgChain[0] = lgChain[1] = 1;\<close> then the loop from \<^verbatim>\<open>i = 0\<close>. The local
  \<^verbatim>\<open>calculatedLength\<close> is assigned in every round before it is read, so its initial
  0 is not part of the state.
\<close>

definition determineLongestChain_run :: "u32 \<Rightarrow> (u32 \<times> u32) option \<times> u32 list" where
  "determineLongestChain_run upperBound = searchLoop upperBound 0 (1, 1) []"

definition determineLongestChain :: "u32 \<Rightarrow> (u32 \<times> u32) option" where
  "determineLongestChain upperBound = fst (determineLongestChain_run upperBound)"

subsection \<open>determineLongestChain on the heap\<close>

text \<open>
  The C function does not return a pair: it returns a pointer to a block of two
  \<^verbatim>\<open>unsigned int\<close> cells obtained from \<^verbatim>\<open>malloc\<close>, and the caller reads
  \<^verbatim>\<open>result[0]\<close> and \<^verbatim>\<open>result[1]\<close>. To speak about state that one call could leave for
  the next, the same code is modelled a second time over an explicit store: a heap
  is the content of every cell (addresses count \<^verbatim>\<open>unsigned int\<close> cells) and the
  first address that has not been handed out. \<^verbatim>\<open>malloc\<close> is the environment's and
  not the program's: it is modelled as handing out the next \<open>k\<close> cells, with
  whatever content they have, and as never failing; the program never frees.
\<close>

type_synonym addr = nat

record heap =
  cells :: "addr \<Rightarrow> u32"
  brk :: addr

definition malloc :: "heap \<Rightarrow> nat \<Rightarrow> addr \<times> heap" where
  "malloc h k = (brk h, h\<lparr>brk := brk h + k\<rparr>)"

function searchLoop_heap :: "u32 \<Rightarrow> u32 \<Rightarrow> addr \<Rightarrow> heap \<Rightarrow> heap option" where
  "searchLoop_heap upperBound i lgChain h =
     (if i < upperBound then
        (case collatzChainLength (i + 1) of
           None \<Rightarrow> None
         | Some calculatedLength \<Rightarrow>
             searchLoop_heap upperBound (i + 1) lgChain
               (if calculatedLength > cells h (lgChain + 1)
                then h\<lparr>cells := (cells h)(lgChain := i + 1, lgChain + 1 := calculatedLength)\<rparr>
                else h))
      else Some h)"
  by pat_completeness auto

termination
proof (relation "measure (\<lambda>(upperBound, i, lgChain, h). unat upperBound - unat i)")
  show "wf (measure (\<lambda>(upperBound, i, lgChain, h). unat upperBound - unat i))"
    by simp
next
  fix upperBound i :: u32 and lgChain :: addr and h :: heap and calculatedLength :: u32
  assume "i < upperBound"
  then have below: "unat i < unat upperBound"
    by (simp add: word_less_nat_alt)
  moreover have "unat upperBound < 2 ^ 32"
    using unsigned_less [of upperBound] by simp
  ultimately have "unat i + 1 < 2 ^ 32"
    by simp
  then have "unat (i + 1) = Suc (unat i)"
    by (simp add: unat_word_ariths)
  with below show "((upperBound, i + 1, lgChain,
       if cells h (lgChain + 1) < calculatedLength
       then h\<lparr>cells := (cells h)(lgChain := i + 1, lgChain + 1 := calculatedLength)\<rparr>
       else h), upperBound, i, lgChain, h)
      \<in> measure (\<lambda>(upperBound, i, lgChain, h). unat upperBound - unat i)"
    by simp
qed

text \<open>
  \<^verbatim>\<open>lgChain = malloc(2 * sizeof(unsigned int)); lgChain[0] = lgChain[1] = 1;\<close>
  then the loop, then \<^verbatim>\<open>return lgChain\<close>.
\<close>

definition determineLongestChain_heap :: "heap \<Rightarrow> u32 \<Rightarrow> (addr \<times> heap) option" where
  "determineLongestChain_heap h upperBound =
     (let (lgChain, h1) = malloc h 2;
          h2 = h1\<lparr>cells := (cells h1)(lgChain + 1 := 1, lgChain := 1)\<rparr>
      in map_option (Pair lgChain) (searchLoop_heap upperBound 0 lgChain h2))"

text \<open>
  What the caller reads through the returned pointer: \<^verbatim>\<open>result[0]\<close> and
  \<^verbatim>\<open>result[1]\<close>, as \<^verbatim>\<open>main\<close> does.
\<close>

definition result_at :: "addr \<Rightarrow> heap \<Rightarrow> u32 \<times> u32" where
  "result_at p h = (cells h p, cells h (p + 1))"

subsection \<open>Specification vocabulary\<close>

text \<open>
  The loop of \<^verbatim>\<open>collatzChainLength\<close> started at \<open>n\<close> leaves after exactly \<open>k\<close>
  rounds: the first \<open>k\<close> terms are above 1 and the next one is not.
\<close>

definition exits_at :: "u32 \<Rightarrow> nat \<Rightarrow> bool" where
  "exits_at n k \<longleftrightarrow> (\<forall>j<k. 1 < (nextTerm ^^ j) n) \<and> (nextTerm ^^ k) n \<le> 1"

text \<open>
  The candidates that the search loop still has to examine when its counter is \<open>i\<close>:
  \<open>i + 1, \<dots>, upperBound\<close>.
\<close>

definition candidates_from :: "u32 \<Rightarrow> u32 \<Rightarrow> u32 list" where
  "candidates_from i upperBound = map of_nat [Suc (unat i) ..< Suc (unat upperBound)]"

text \<open>
  Writing a pair into the two cells at \<open>p\<close>, the way the program fills \<^verbatim>\<open>lgChain\<close>.
\<close>

definition store_result :: "addr \<Rightarrow> u32 \<times> u32 \<Rightarrow> heap \<Rightarrow> heap" where
  "store_result p r h = h\<lparr>cells := (cells h)(p := fst r, p + 1 := snd r)\<rparr>"

text \<open>
  The Collatz step of the spec's glossary, on unbounded naturals: \<open>3 * t + 1\<close> for an
  odd \<open>t\<close>, \<open>t div 2\<close> for an even one. It is the yardstick for \<^verbatim>\<open>nextTerm\<close>, not
  a part of the program.
\<close>

definition collatz_step :: "nat \<Rightarrow> nat" where
  "collatz_step t = (if odd t then 3 * t + 1 else t div 2)"

section \<open>nextTerm\<close>

lemma nextTerm_odd: "odd (unat t) \<Longrightarrow> nextTerm t = 3 * t + 1"
proof -
  assume "odd (unat t)"
  then have "unat (t mod 2) \<noteq> unat (0 :: u32)"
    by (simp add: unat_mod_distrib odd_iff_mod_2_eq_one)
  then have "t mod 2 \<noteq> 0" by (rule contrapos_nn) (rule arg_cong)
  then show ?thesis by (simp add: nextTerm_def)
qed

lemma nextTerm_even: "even (unat t) \<Longrightarrow> nextTerm t = t div 2"
proof -
  assume "even (unat t)"
  then have "unat (t mod 2) = unat (0 :: u32)"
    by (simp add: unat_mod_distrib)
  then have "\<not> t mod 2 \<noteq> 0" by (simp only: word_unat_eq_iff [symmetric] not_not)
  then show ?thesis by (simp add: nextTerm_def)
qed

lemma nextTerm_unat:
  "unat (nextTerm t) = (if odd (unat t) then (3 * unat t + 1) mod 2 ^ 32 else unat t div 2)"
proof (cases "odd (unat t)")
  case True
  then show ?thesis by (simp add: nextTerm_odd unat_word_ariths mod_simps)
next
  case False
  then show ?thesis by (simp add: nextTerm_even unat_div_distrib)
qed

text \<open>
  Claim C2, as amended. For every 32-bit term \<open>t \<ge> 1\<close>, \<^verbatim>\<open>nextTerm\<close> returns \<open>t div 2\<close>
  when \<open>t\<close> is even, whatever its size, and \<open>3 * t + 1\<close> when \<open>t\<close> is odd and
  \<open>3 * t + 1\<close> is below \<open>2 ^ 32\<close>, that is for odd \<open>t\<close> up to 1431655763; there is no
  error branch. Nothing is stated here about the odd terms above that.
\<close>

theorem nextTerm_in_range:
  assumes "1 \<le> t"
  shows "(even (unat t) \<longrightarrow> unat (nextTerm t) = unat t div 2)
       \<and> (odd (unat t) \<and> 3 * unat t + 1 < 2 ^ 32 \<longrightarrow> unat (nextTerm t) = 3 * unat t + 1)"
  by (simp add: nextTerm_unat)

theorem nextTerm_in_range_witness:
  "1 \<le> (7 :: u32) \<and> odd (unat (7 :: u32)) \<and> 3 * unat (7 :: u32) + 1 < 2 ^ 32
   \<and> unat (nextTerm 7) = 22
   \<and> 1 \<le> (4294967294 :: u32) \<and> even (unat (4294967294 :: u32))
   \<and> unat (nextTerm 4294967294) = 2147483647"
proof -
  have small: "1 \<le> (7 :: u32)" and large: "1 \<le> (4294967294 :: u32)"
    by simp_all
  have odd7: "odd (unat (7 :: u32))" and fits: "3 * unat (7 :: u32) + 1 < 2 ^ 32"
    and even_large: "even (unat (4294967294 :: u32))"
    by simp_all
  from nextTerm_in_range [OF small] odd7 fits have "unat (nextTerm 7) = 3 * unat (7 :: u32) + 1"
    by blast
  moreover from nextTerm_in_range [OF large] even_large
  have "unat (nextTerm 4294967294) = unat (4294967294 :: u32) div 2"
    by blast
  ultimately show ?thesis using small large odd7 fits even_large by simp
qed

text \<open>
  The claim as first stated, for every \<open>t \<ge> 1\<close>, fails at the odd term
  \<open>1431655765\<close>: \<open>3 * 1431655765 + 1 = 2 ^ 32\<close>, and \<^verbatim>\<open>nextTerm\<close> returns 0.
\<close>

theorem nextTerm_wraps_counterexample:
  "1 \<le> (1431655765 :: u32) \<and> odd (unat (1431655765 :: u32))
   \<and> unat (nextTerm 1431655765) \<noteq> 3 * unat (1431655765 :: u32) + 1"
  by (simp add: nextTerm_def)

section \<open>collatzChainLength\<close>

lemma chainLoop_unroll:
  "\<forall>j<k. 1 < (nextTerm ^^ j) n \<Longrightarrow>
   chainLoop n c m = chainLoop ((nextTerm ^^ k) n) (c + of_nat k) (m + k)"
proof (induction k arbitrary: n c m)
  case 0
  show ?case by simp
next
  case (Suc k)
  from Suc.prems have "1 < n" by force
  then have step: "chainLoop n c m = chainLoop (nextTerm n) (c + 1) (Suc m)"
    by (subst chainLoop.simps) simp
  have "\<forall>j<k. 1 < (nextTerm ^^ j) (nextTerm n)"
  proof (intro allI impI)
    fix j assume "j < k"
    then have "1 < (nextTerm ^^ Suc j) n" using Suc.prems by blast
    then show "1 < (nextTerm ^^ j) (nextTerm n)" by (simp add: funpow_swap1)
  qed
  from Suc.IH [OF this, of "c + 1" "Suc m"] step show ?case
    by (simp add: funpow_swap1 ac_simps)
qed

lemma chainLoop_exits:
  assumes "exits_at n k"
  shows "chainLoop n c m = Some (c + of_nat k, m + k)"
proof -
  from assms have "chainLoop n c m = chainLoop ((nextTerm ^^ k) n) (c + of_nat k) (m + k)"
    by (intro chainLoop_unroll) (simp add: exits_at_def)
  also from assms have "\<dots> = Some (c + of_nat k, m + k)"
    by (subst chainLoop.simps) (simp add: exits_at_def not_less [symmetric])
  finally show ?thesis .
qed

lemma chainLoop_Some_exits:
  "chainLoop n c m = Some y \<Longrightarrow> \<exists>k. exits_at n k \<and> y = (c + of_nat k, m + k)"
proof (induction rule: chainLoop.raw_induct [rotated 1, consumes 1])
  case (1 loop n c m y)
  show ?case
  proof (cases "1 < n")
    case True
    with 1(2) have "loop (nextTerm n) (c + 1) (Suc m) = Some y" by simp
    from 1(1) [OF this] obtain k where k: "exits_at (nextTerm n) k"
      and y: "y = (c + 1 + of_nat k, Suc m + k)" by blast
    have "exits_at n (Suc k)"
      unfolding exits_at_def
    proof (intro conjI allI impI)
      fix j assume "j < Suc k"
      show "1 < (nextTerm ^^ j) n"
      proof (cases j)
        case 0 with True show ?thesis by simp
      next
        case (Suc j')
        with \<open>j < Suc k\<close> k show ?thesis by (simp add: exits_at_def funpow_swap1)
      qed
    next
      from k show "(nextTerm ^^ Suc k) n \<le> 1" by (simp add: exits_at_def funpow_swap1)
    qed
    with y show ?thesis by (intro exI [of _ "Suc k"]) (simp add: add.assoc add.commute)
  next
    case False
    with 1(2) have "y = (c, m)" by simp
    moreover from False have "exits_at n 0" by (simp add: exits_at_def not_less)
    ultimately show ?thesis by (intro exI [of _ 0]) simp
  qed
qed


lemma exits_at_bound:
  assumes "exits_at n k"
  shows "k \<le> 4294967294"
proof -
  let ?g = "\<lambda>j. (nextTerm ^^ j) n"
  have inj: "inj_on ?g {..<k}"
  proof (rule linorder_inj_onI)
    fix a b assume ab: "a < b" and "a \<in> {..<k}" and "b \<in> {..<k}"
    then have bk: "b < k" by simp
    show "?g a \<noteq> ?g b"
    proof
      assume eq: "?g a = ?g b"
      have "?g (a + (k - b)) = ?g (b + (k - b))"
        using eq by (simp add: funpow_add add.commute [of _ "k - b"])
      with bk have "?g (a + (k - b)) = ?g k" by simp
      moreover from ab bk have "a + (k - b) < k" by simp
      ultimately show False using assms by (auto simp: exits_at_def not_less [symmetric])
    qed
  qed (rule linear)
  have "?g ` {..<k} \<subseteq> UNIV - {0, 1}"
    using assms by (auto simp: exits_at_def)
  then have "card (?g ` {..<k}) \<le> card (UNIV - {0, 1 :: u32})"
    by (intro card_mono) simp_all
  also have "\<dots> = 4294967294"
    by (simp add: card_Diff_subset card_word)
  finally show ?thesis using inj by (simp add: card_image)
qed

lemma reaches_exits:
  assumes "(nextTerm ^^ k) n \<le> 1"
  shows "\<exists>k'\<le>k. exits_at n k'"
proof -
  define k' where "k' = (LEAST j. (nextTerm ^^ j) n \<le> 1)"
  have "(nextTerm ^^ k') n \<le> 1" unfolding k'_def using assms by (rule LeastI)
  moreover have "k' \<le> k" unfolding k'_def using assms by (rule Least_le)
  moreover have "\<forall>j<k'. 1 < (nextTerm ^^ j) n"
    unfolding k'_def using not_less_Least by (auto simp: not_le [symmetric])
  ultimately show ?thesis by (auto simp: exits_at_def)
qed

lemma collatzChainLength_run_loop: "collatzChainLength_run n = chainLoop n 1 0"
proof (cases "1 < n")
  case True
  then show ?thesis by (simp add: collatzChainLength_run_def)
next
  case False
  then have "chainLoop n 1 0 = Some (1, 0)" by (subst chainLoop.simps) simp
  with False show ?thesis by (simp add: collatzChainLength_run_def)
qed

lemma collatzChainLength_run_iff:
  "collatzChainLength_run n = Some (c, m) \<longleftrightarrow> exits_at n m \<and> c = 1 + of_nat m"
  using chainLoop_exits [of n _ 1 0] chainLoop_Some_exits [of n 1 0 "(c, m)"]
  by (auto simp: collatzChainLength_run_loop)

lemma unat_terms: "m \<le> 4294967294 \<Longrightarrow> unat (1 + of_nat m :: u32) = Suc m"
  by (simp add: unat_word_ariths unat_of_nat)


lemma funpow_numeral_shift: "(f ^^ numeral k) x = (f ^^ pred_numeral k) (f x)"
  by (simp add: numeral_eq_Suc funpow_swap1)

lemma collatzChainLength_returns:
  assumes "(nextTerm ^^ k) n \<le> 1"
  shows "\<exists>m\<le>k. m \<le> 4294967294 \<and> exits_at n m
           \<and> collatzChainLength_run n = Some (1 + of_nat m, m)"
proof -
  from reaches_exits [OF assms] obtain m where "m \<le> k" and m: "exits_at n m" by blast
  moreover from m have "m \<le> 4294967294" by (rule exits_at_bound)
  moreover from m have "collatzChainLength_run n = Some (1 + of_nat m, m)"
    by (simp add: collatzChainLength_run_iff)
  ultimately show ?thesis by blast
qed

lemma exits_at_step:
  assumes "1 < n" and "exits_at n m"
  shows "\<exists>m'. m = Suc m' \<and> exits_at (nextTerm n) m'"
proof (cases m)
  case 0
  with assms show ?thesis by (simp add: exits_at_def not_less [symmetric])
next
  case (Suc m')
  have "exits_at (nextTerm n) m'"
    unfolding exits_at_def
  proof (intro conjI allI impI)
    fix j assume "j < m'"
    then have "1 < (nextTerm ^^ Suc j) n" using assms(2) Suc unfolding exits_at_def by blast
    then show "1 < (nextTerm ^^ j) (nextTerm n)" by (simp add: funpow_swap1)
  next
    from assms(2) Suc show "(nextTerm ^^ m') (nextTerm n) \<le> 1"
      by (simp add: exits_at_def funpow_swap1)
  qed
  with Suc show ?thesis by blast
qed

text \<open>
  Claim C5. For every \<open>n \<ge> 1\<close> whose chain, as the program computes it, reaches 1,
  \<^verbatim>\<open>collatzChainLength\<close> returns, and what it returns is at least 1 (the 32-bit counter
  \<^verbatim>\<open>termsCount\<close> cannot have wrapped to 0). At 1 it returns 1 with no call of
  \<^verbatim>\<open>nextTerm\<close>.
\<close>

theorem collatzChainLength_at_least_one:
  assumes "1 \<le> n" and "(nextTerm ^^ k) n = 1"
  shows "(\<exists>c. collatzChainLength n = Some c \<and> 1 \<le> unat c)
         \<and> collatzChainLength 1 = Some 1 \<and> collatzChainLength_run 1 = Some (1, 0)"
proof -
  from assms(2) have "(nextTerm ^^ k) n \<le> 1" by simp
  from collatzChainLength_returns [OF this] obtain m
    where "m \<le> 4294967294" and "collatzChainLength_run n = Some (1 + of_nat m, m)" by blast
  then have "collatzChainLength n = Some (1 + of_nat m)"
    and "1 \<le> unat (1 + of_nat m :: u32)"
    by (simp_all add: collatzChainLength_def unat_terms)
  then have "\<exists>c. collatzChainLength n = Some c \<and> 1 \<le> unat c" by blast
  moreover have "collatzChainLength_run 1 = Some (1, 0)"
    by (simp add: collatzChainLength_run_def)
  moreover from this have "collatzChainLength 1 = Some 1"
    by (simp add: collatzChainLength_def)
  ultimately show ?thesis by blast
qed

theorem collatzChainLength_at_least_one_witness:
  "1 \<le> (7 :: u32) \<and> (nextTerm ^^ 16) (7 :: u32) = 1
   \<and> (\<exists>c. collatzChainLength 7 = Some c \<and> 1 \<le> unat c)"
proof -
  have reach: "(nextTerm ^^ 16) (7 :: u32) = 1"
    by (simp add: funpow_numeral_shift nextTerm_def)
  have "1 \<le> (7 :: u32)" by simp
  from collatzChainLength_at_least_one [OF this reach] reach show ?thesis by simp
qed

text \<open>
  Claim C6. For every \<open>n > 1\<close> whose chain, as the program computes it, reaches 1, both
  \<^verbatim>\<open>collatzChainLength(n)\<close> and \<^verbatim>\<open>collatzChainLength(nextTerm(n))\<close> return, and the
  first is one more than the second, as numbers (no wrap-around in the sum).
\<close>

theorem collatzChainLength_step:
  assumes "1 < n" and "(nextTerm ^^ k) n = 1"
  shows "\<exists>c c'. collatzChainLength n = Some c \<and> collatzChainLength (nextTerm n) = Some c'
           \<and> unat c = 1 + unat c'"
proof -
  from assms(2) have "(nextTerm ^^ k) n \<le> 1" by simp
  from collatzChainLength_returns [OF this] obtain m
    where bound: "m \<le> 4294967294" and m: "exits_at n m"
      and run: "collatzChainLength_run n = Some (1 + of_nat m, m)" by blast
  from exits_at_step [OF assms(1) m] obtain m'
    where Suc: "m = Suc m'" and m': "exits_at (nextTerm n) m'" by blast
  from m' have run': "collatzChainLength_run (nextTerm n) = Some (1 + of_nat m', m')"
    by (simp add: collatzChainLength_run_iff)
  from bound Suc have "m' \<le> 4294967294" by simp
  then have "unat (1 + of_nat m' :: u32) = Suc m'" by (rule unat_terms)
  moreover from bound have "unat (1 + of_nat m :: u32) = Suc m" by (rule unat_terms)
  ultimately have "unat (1 + of_nat m :: u32) = 1 + unat (1 + of_nat m' :: u32)"
    using Suc by simp
  moreover from run have "collatzChainLength n = Some (1 + of_nat m)"
    by (simp add: collatzChainLength_def)
  moreover from run' have "collatzChainLength (nextTerm n) = Some (1 + of_nat m')"
    by (simp add: collatzChainLength_def)
  ultimately show ?thesis by blast
qed

theorem collatzChainLength_step_witness:
  "1 < (7 :: u32) \<and> (nextTerm ^^ 16) (7 :: u32) = 1
   \<and> (\<exists>c c'. collatzChainLength 7 = Some c \<and> collatzChainLength (nextTerm 7) = Some c'
           \<and> unat c = 1 + unat c')"
proof -
  have reach: "(nextTerm ^^ 16) (7 :: u32) = 1"
    by (simp add: funpow_numeral_shift nextTerm_def)
  have "1 < (7 :: u32)" by simp
  from collatzChainLength_step [OF this reach] reach show ?thesis by simp
qed

text \<open>
  Claim C10. \<^verbatim>\<open>collatzChainLength(0)\<close> returns 1: the guard \<^verbatim>\<open>number > 1\<close> is false,
  the loop is not entered and \<^verbatim>\<open>nextTerm\<close> is not called.
\<close>

theorem collatzChainLength_zero:
  "collatzChainLength 0 = Some 1 \<and> collatzChainLength_run 0 = Some (1, 0)"
  by (simp add: collatzChainLength_def collatzChainLength_run_def)


section \<open>determineLongestChain\<close>

lemma unat_succ_below: "(i :: u32) < upperBound \<Longrightarrow> unat (i + 1) = Suc (unat i)"
proof -
  assume "i < upperBound"
  then have "unat i < unat upperBound" by (simp add: word_less_nat_alt)
  moreover have "unat upperBound < 2 ^ 32" using unsigned_less [of upperBound] by simp
  ultimately have "unat i + 1 < 2 ^ 32" by simp
  then show ?thesis by (simp add: unat_word_ariths)
qed

lemma above_cases:
  assumes "(i :: u32) < upperBound"
  shows "i < j \<longleftrightarrow> j = i + 1 \<or> i + 1 < j"
proof -
  have "j = i + 1 \<longleftrightarrow> unat j = Suc (unat i)"
    by (simp add: word_unat_eq_iff unat_succ_below [OF assms])
  moreover have "i + 1 < j \<longleftrightarrow> Suc (unat i) < unat j"
    by (simp add: word_less_nat_alt unat_succ_below [OF assms])
  moreover have "i < j \<longleftrightarrow> unat i < unat j"
    by (simp add: word_less_nat_alt)
  ultimately show ?thesis by auto
qed

lemma succ_le_bound: "(i :: u32) < upperBound \<Longrightarrow> i + 1 \<le> upperBound"
  by (simp add: word_le_nat_alt word_less_nat_alt unat_succ_below)

lemma searchLoop_best:
  assumes "\<forall>j. i < j \<and> j \<le> upperBound \<longrightarrow> collatzChainLength j \<noteq> None"
  shows "\<exists>b l. fst (searchLoop upperBound i lgChain examined) = Some (b, l)
     \<and> (\<forall>j. i < j \<and> j \<le> upperBound \<longrightarrow> (\<exists>c. collatzChainLength j = Some c \<and> c \<le> l))
     \<and> ((b, l) = lgChain
        \<or> i < b \<and> b \<le> upperBound \<and> collatzChainLength b = Some l \<and> snd lgChain < l
          \<and> (\<forall>j. i < j \<and> j < b \<longrightarrow> (\<exists>c. collatzChainLength j = Some c \<and> c < l)))"
  using assms
proof (induction upperBound i lgChain examined rule: searchLoop.induct)
  case (1 upperBound i lgChain examined)
  show ?case
  proof (cases "i < upperBound")
    case False
    then have none: "\<not> (i < j \<and> j \<le> upperBound)" for j by auto
    from False have "fst (searchLoop upperBound i lgChain examined) = Some lgChain"
      by (subst searchLoop.simps) simp
    with none show ?thesis by (cases lgChain) auto
  next
    case True
    note cases = above_cases [OF True]
    from True have in_range: "i < i + 1" "i + 1 \<le> upperBound"
      by (simp_all add: cases succ_le_bound)
    with "1.prems" obtain c where c: "collatzChainLength (i + 1) = Some c" by blast
    define lg where "lg = (if c > snd lgChain then (i + 1, c) else lgChain)"
    have rest: "\<forall>j. i + 1 < j \<and> j \<le> upperBound \<longrightarrow> collatzChainLength j \<noteq> None"
      using "1.prems" cases by blast
    from "1.IH" [OF True c rest] obtain b l
      where res: "fst (searchLoop upperBound (i + 1) lg (examined @ [i + 1])) = Some (b, l)"
        and all: "\<forall>j. i + 1 < j \<and> j \<le> upperBound \<longrightarrow>
                    (\<exists>c. collatzChainLength j = Some c \<and> c \<le> l)"
        and best: "(b, l) = lg
          \<or> i + 1 < b \<and> b \<le> upperBound \<and> collatzChainLength b = Some l \<and> snd lg < l
            \<and> (\<forall>j. i + 1 < j \<and> j < b \<longrightarrow> (\<exists>c. collatzChainLength j = Some c \<and> c < l))"
      unfolding lg_def by blast
    have here: "fst (searchLoop upperBound i lgChain examined) = Some (b, l)"
      using True c res by (subst searchLoop.simps) (simp add: lg_def)
    have lg_ge: "snd lgChain \<le> snd lg" "c \<le> snd lg"
      by (auto simp: lg_def)
    have l_ge: "snd lg \<le> l" using best by auto
    have all': "\<forall>j. i < j \<and> j \<le> upperBound \<longrightarrow>
                    (\<exists>c. collatzChainLength j = Some c \<and> c \<le> l)"
    proof (intro allI impI)
      fix j assume "i < j \<and> j \<le> upperBound"
      then consider "j = i + 1" | "i + 1 < j \<and> j \<le> upperBound" using cases by blast
      then show "\<exists>c. collatzChainLength j = Some c \<and> c \<le> l"
      proof cases
        case 1
        with c lg_ge l_ge show ?thesis by auto
      next
        case 2
        with all show ?thesis by blast
      qed
    qed
    have best': "(b, l) = lgChain
          \<or> i < b \<and> b \<le> upperBound \<and> collatzChainLength b = Some l \<and> snd lgChain < l
            \<and> (\<forall>j. i < j \<and> j < b \<longrightarrow> (\<exists>c. collatzChainLength j = Some c \<and> c < l))"
    proof (cases "(b, l) = lg")
      case True
      show ?thesis
      proof (cases "c > snd lgChain")
        case False
        with True show ?thesis by (simp add: lg_def)
      next
        case gt: True
        with True have "b = i + 1" "l = c" by (simp_all add: lg_def)
        moreover have "\<not> (i < j \<and> j < i + 1)" for j
          using cases [of j] by auto
        ultimately show ?thesis using in_range c gt by auto
      qed
    next
      case False
      with best have b: "i + 1 < b" "b \<le> upperBound" "collatzChainLength b = Some l"
        "snd lg < l"
        and before: "\<forall>j. i + 1 < j \<and> j < b \<longrightarrow> (\<exists>c. collatzChainLength j = Some c \<and> c < l)"
        by blast+
      from b(1) have "i < b" using cases by blast
      moreover from b(4) lg_ge have "snd lgChain < l" "c < l" by auto
      moreover have "\<exists>c. collatzChainLength j = Some c \<and> c < l" if "i < j \<and> j < b" for j
      proof -
        from that consider "j = i + 1" | "i + 1 < j \<and> j < b" using cases by blast
        then show ?thesis
        proof cases
          case 1
          with c \<open>c < l\<close> show ?thesis by simp
        next
          case 2
          with before show ?thesis by blast
        qed
      qed
      ultimately show ?thesis using b by blast
    qed
    from here all' best' show ?thesis by blast
  qed
qed


lemma candidates_from_0: "candidates upperBound = candidates_from 0 upperBound"
  by (simp add: candidates_def candidates_from_def)

lemma candidates_from_step:
  assumes "i < upperBound"
  shows "candidates_from i upperBound = (i + 1) # candidates_from (i + 1) upperBound"
proof -
  from assms have "unat i < unat upperBound" by (simp add: word_less_nat_alt)
  then have "[Suc (unat i) ..< Suc (unat upperBound)]
      = Suc (unat i) # [Suc (Suc (unat i)) ..< Suc (unat upperBound)]"
    by (simp add: upt_conv_Cons)
  moreover have "of_nat (Suc (unat i)) = i + 1" by simp
  ultimately show ?thesis
    by (simp add: candidates_from_def unat_succ_below [OF assms])
qed

lemma candidates_from_done: "\<not> i < upperBound \<Longrightarrow> candidates_from i upperBound = []"
  by (simp add: candidates_from_def word_less_nat_alt)

lemma set_candidates_from:
  "set (candidates_from i upperBound) = {j. i < j \<and> j \<le> upperBound}"
proof (intro set_eqI iffI)
  fix j assume "j \<in> set (candidates_from i upperBound)"
  then have "j \<in> of_nat ` {Suc (unat i) ..< Suc (unat upperBound)}"
    unfolding candidates_from_def set_map set_upt .
  then obtain k where "k \<in> {Suc (unat i) ..< Suc (unat upperBound)}" and j: "j = of_nat k"
    by blast
  then have k: "unat i < k" "k \<le> unat upperBound" by simp_all
  have "unat upperBound < 2 ^ 32" using unsigned_less [of upperBound] by simp
  with k(2) have "k < 2 ^ 32" by simp
  then have "unat j = k" by (simp add: j unat_of_nat)
  with k show "j \<in> {j. i < j \<and> j \<le> upperBound}"
    by (simp add: word_less_nat_alt word_le_nat_alt)
next
  fix j assume "j \<in> {j. i < j \<and> j \<le> upperBound}"
  then have "unat i < unat j" "unat j \<le> unat upperBound"
    by (simp_all add: word_less_nat_alt word_le_nat_alt)
  then have "unat j \<in> set [Suc (unat i) ..< Suc (unat upperBound)]" by auto
  then have "of_nat (unat j) \<in> set (candidates_from i upperBound)"
    unfolding candidates_from_def set_map by (rule imageI)
  then show "j \<in> set (candidates_from i upperBound)" by simp
qed

lemma set_candidates: "set (candidates upperBound) = {j. 1 \<le> j \<and> j \<le> upperBound}"
proof -
  have "(0 :: u32) < j \<longleftrightarrow> 1 \<le> j" for j
    by (simp add: word_less_nat_alt word_le_nat_alt Suc_le_eq)
  then show ?thesis by (simp add: candidates_from_0 set_candidates_from)
qed

lemma length_candidates: "length (candidates upperBound) = unat upperBound"
  by (simp add: candidates_def)

lemma searchLoop_trace:
  "\<exists>r. snd (searchLoop upperBound i lgChain examined) = examined @ r
     \<and> r = take (length r) (candidates_from i upperBound)
     \<and> (fst (searchLoop upperBound i lgChain examined) \<noteq> None
          \<longrightarrow> r = candidates_from i upperBound)"
proof (induction upperBound i lgChain examined rule: searchLoop.induct)
  case (1 upperBound i lgChain examined)
  show ?case
  proof (cases "i < upperBound")
    case False
    then have "searchLoop upperBound i lgChain examined = (Some lgChain, examined)"
      by (subst searchLoop.simps) simp
    with False show ?thesis by (simp add: candidates_from_done)
  next
    case True
    note step = candidates_from_step [OF True]
    show ?thesis
    proof (cases "collatzChainLength (i + 1)")
      case None
      with True have "searchLoop upperBound i lgChain examined = (None, examined @ [i + 1])"
        by (subst searchLoop.simps) simp
      then show ?thesis by (simp add: step)
    next
      case (Some c)
      define lg where "lg = (if c > snd lgChain then (i + 1, c) else lgChain)"
      from "1.IH" [OF True Some] obtain r
        where r: "snd (searchLoop upperBound (i + 1) lg (examined @ [i + 1]))
                    = (examined @ [i + 1]) @ r"
          and pre: "r = take (length r) (candidates_from (i + 1) upperBound)"
          and full: "fst (searchLoop upperBound (i + 1) lg (examined @ [i + 1])) \<noteq> None
                    \<longrightarrow> r = candidates_from (i + 1) upperBound"
        unfolding lg_def by blast
      have here: "searchLoop upperBound i lgChain examined
          = searchLoop upperBound (i + 1) lg (examined @ [i + 1])"
        using True Some by (subst searchLoop.simps) (simp add: lg_def)
      have "(i + 1) # r = take (length ((i + 1) # r)) (candidates_from i upperBound)"
        using pre by (simp add: step)
      with r full show ?thesis
        unfolding here by (intro exI [of _ "(i + 1) # r"]) (simp add: step)
    qed
  qed
qed

lemma searchLoop_returns_iff:
  "fst (searchLoop upperBound i lgChain examined) \<noteq> None
     \<longleftrightarrow> (\<forall>j. i < j \<and> j \<le> upperBound \<longrightarrow> collatzChainLength j \<noteq> None)"
proof
  assume "\<forall>j. i < j \<and> j \<le> upperBound \<longrightarrow> collatzChainLength j \<noteq> None"
  from searchLoop_best [OF this, of lgChain examined]
  show "fst (searchLoop upperBound i lgChain examined) \<noteq> None" by auto
next
  assume "fst (searchLoop upperBound i lgChain examined) \<noteq> None"
  then show "\<forall>j. i < j \<and> j \<le> upperBound \<longrightarrow> collatzChainLength j \<noteq> None"
  proof (induction upperBound i lgChain examined rule: searchLoop.induct)
    case (1 upperBound i lgChain examined)
    show ?case
    proof (cases "i < upperBound")
      case False
      then show ?thesis by auto
    next
      case True
      from "1.prems" True obtain c where c: "collatzChainLength (i + 1) = Some c"
        by (subst (asm) searchLoop.simps) (auto split: option.splits)
      with "1.prems" True have
        "fst (searchLoop upperBound (i + 1)
               (if c > snd lgChain then (i + 1, c) else lgChain) (examined @ [i + 1])) \<noteq> None"
        by (subst (asm) searchLoop.simps) simp
      from "1.IH" [OF True c this] c show ?thesis
        using above_cases [OF True] by auto
    qed
  qed
qed



lemma candidates_sorted: "sorted_wrt (<) (candidates upperBound)"
  unfolding candidates_def
proof (rule sorted_wrt_map_mono)
  show "sorted_wrt (<) [1 ..< Suc (unat upperBound)]"
    by (rule sorted_wrt_upt)
next
  fix a b
  assume a: "a \<in> set [1 ..< Suc (unat upperBound)]"
    and b: "b \<in> set [1 ..< Suc (unat upperBound)]" and less: "a < b"
  have "unat upperBound < 2 ^ 32" using unsigned_less [of upperBound] by simp
  with a b have "a < 2 ^ 32" "b < 2 ^ 32" by auto
  with less show "(of_nat a :: u32) < of_nat b"
    by (simp add: word_less_nat_alt unat_of_nat)
qed

text \<open>
  Claim C1, as amended. For every \<open>upperBound \<ge> 1\<close> such that
  \<^verbatim>\<open>collatzChainLength\<close> returns on each candidate \<open>1, \<dots>, upperBound\<close>,
  \<^verbatim>\<open>determineLongestChain\<close> returns a pair \<open>(bestNumber, bestLength)\<close> where
  \<open>bestNumber\<close> is a candidate, \<open>bestLength\<close> is its chain length and the maximum of
  the chain lengths of all candidates, and every candidate scanned before
  \<open>bestNumber\<close> has a strictly shorter chain: a later candidate of equal length does
  not replace it. The scan order is the increasing order (\<open>candidates_sorted\<close>).
\<close>

theorem determineLongestChain_maximum:
  assumes "1 \<le> upperBound"
    and "\<forall>i\<in>set (candidates upperBound). collatzChainLength i \<noteq> None"
  shows "\<exists>bestNumber bestLength.
      determineLongestChain upperBound = Some (bestNumber, bestLength)
    \<and> bestNumber \<in> set (candidates upperBound)
    \<and> collatzChainLength bestNumber = Some bestLength
    \<and> (\<forall>i\<in>set (candidates upperBound).
          \<exists>c. collatzChainLength i = Some c \<and> c \<le> bestLength)
    \<and> (\<forall>j\<in>set (candidates upperBound). j < bestNumber \<longrightarrow>
          (\<exists>c. collatzChainLength j = Some c \<and> c < bestLength))"
proof -
  have pos: "(0 :: u32) < j \<longleftrightarrow> 1 \<le> j" for j
    by (simp add: word_less_nat_alt word_le_nat_alt Suc_le_eq)
  have mem: "j \<in> set (candidates upperBound) \<longleftrightarrow> 0 < j \<and> j \<le> upperBound" for j
    by (simp add: set_candidates pos)
  from assms(2) have "\<forall>j. 0 < j \<and> j \<le> upperBound \<longrightarrow> collatzChainLength j \<noteq> None"
    by (simp add: mem)
  from searchLoop_best [OF this, of "(1, 1)" "[]"] obtain b l
    where res: "determineLongestChain upperBound = Some (b, l)"
      and all: "\<forall>j. 0 < j \<and> j \<le> upperBound \<longrightarrow>
                  (\<exists>c. collatzChainLength j = Some c \<and> c \<le> l)"
      and best: "(b, l) = (1, 1)
        \<or> 0 < b \<and> b \<le> upperBound \<and> collatzChainLength b = Some l \<and> snd (1 :: u32, 1 :: u32) < l
          \<and> (\<forall>j. 0 < j \<and> j < b \<longrightarrow> (\<exists>c. collatzChainLength j = Some c \<and> c < l))"
    unfolding determineLongestChain_def determineLongestChain_run_def by blast
  have one: "collatzChainLength 1 = Some 1"
    by (simp add: collatzChainLength_def collatzChainLength_run_def)
  have "b \<in> set (candidates upperBound) \<and> collatzChainLength b = Some l
      \<and> (\<forall>j\<in>set (candidates upperBound). j < b \<longrightarrow>
          (\<exists>c. collatzChainLength j = Some c \<and> c < l))"
  proof (cases "(b, l) = (1, 1)")
    case True
    then have "b = 1" "l = 1" by simp_all
    moreover have "\<not> (0 < j \<and> j < 1)" for j :: u32
      by (auto simp: word_less_nat_alt)
    ultimately show ?thesis using assms(1) one by (simp add: mem pos)
  next
    case False
    with best show ?thesis by (auto simp: mem)
  qed
  with res all show ?thesis by (simp add: mem)
qed

text \<open>
  The spec's example: among \<open>1, \<dots>, 7\<close> the longest chain is that of 7.
\<close>

lemma candidates_7: "candidates 7 = [1, 2, 3, 4, 5, 6, 7]"
  by (simp add: candidates_def upt_rec)

lemma lengths_7:
  "map collatzChainLength (candidates 7)
     = [Some 1, Some 2, Some 8, Some 3, Some 6, Some 9, Some 17]"
  by (simp add: candidates_7 collatzChainLength_def collatzChainLength_run_def
      chainLoop.simps nextTerm_def)

theorem determineLongestChain_maximum_witness:
  "1 \<le> (7 :: u32)
   \<and> map collatzChainLength (candidates 7)
       = [Some 1, Some 2, Some 8, Some 3, Some 6, Some 9, Some 17]
   \<and> determineLongestChain 7 = Some (7, 17)"
proof -
  have ge: "1 \<le> (7 :: u32)" by simp
  have len: "collatzChainLength 1 = Some 1" "collatzChainLength 2 = Some 2"
    "collatzChainLength 3 = Some 8" "collatzChainLength 4 = Some 3"
    "collatzChainLength 5 = Some 6" "collatzChainLength 6 = Some 9"
    "collatzChainLength 7 = Some 17"
    using lengths_7 by (simp_all add: candidates_7)
  then have ret: "\<forall>i\<in>set (candidates 7). collatzChainLength i \<noteq> None"
    by (simp add: candidates_7)
  from determineLongestChain_maximum [OF ge ret] obtain b l
    where res: "determineLongestChain 7 = Some (b, l)"
      and b: "b \<in> set (candidates 7)" "collatzChainLength b = Some l"
      and all: "\<forall>i\<in>set (candidates 7). \<exists>c. collatzChainLength i = Some c \<and> c \<le> l"
    by blast
  from all len have "17 \<le> l" by (simp add: candidates_7)
  with b len have "b = 7 \<and> l = 17" by (auto simp: candidates_7 word_le_nat_alt)
  with res ge lengths_7 show ?thesis by simp
qed

text \<open>
  The claim as first stated, for every \<open>upperBound\<close>, fails at 0: there is no
  candidate, hence no maximum and no first candidate reaching it, and the pair
  \<open>(1, 1)\<close> that is returned names the number 1, which was not examined.
\<close>

theorem no_candidate_at_zero_counterexample:
  "determineLongestChain 0 = Some (1, 1) \<and> candidates 0 = []"
  by (simp add: determineLongestChain_def determineLongestChain_run_def candidates_def)

text \<open>
  Claim C7. Every argument that \<^verbatim>\<open>determineLongestChain\<close> hands to
  \<^verbatim>\<open>collatzChainLength\<close> is at least 1, never 0, also in a run that does not return;
  the arguments are an initial part of \<open>1, 2, \<dots>, upperBound\<close>, and a run that returns
  has examined exactly these \<open>upperBound\<close> candidates, in this order. The run returns
  exactly when \<^verbatim>\<open>collatzChainLength\<close> returns on each of them.
\<close>

theorem determineLongestChain_examines:
  "(\<forall>a\<in>set (snd (determineLongestChain_run upperBound)). 1 \<le> a)
   \<and> 0 \<notin> set (snd (determineLongestChain_run upperBound))
   \<and> snd (determineLongestChain_run upperBound)
       = take (length (snd (determineLongestChain_run upperBound))) (candidates upperBound)
   \<and> (determineLongestChain upperBound \<noteq> None \<longrightarrow>
        snd (determineLongestChain_run upperBound) = candidates upperBound
        \<and> length (snd (determineLongestChain_run upperBound)) = unat upperBound)
   \<and> (determineLongestChain upperBound \<noteq> None
        \<longleftrightarrow> (\<forall>i\<in>set (candidates upperBound). collatzChainLength i \<noteq> None))"
proof -
  let ?examined = "snd (determineLongestChain_run upperBound)"
  from searchLoop_trace [of upperBound 0 "(1, 1)" "[]"]
  have pre: "?examined = take (length ?examined) (candidates upperBound)"
    and full: "determineLongestChain upperBound \<noteq> None \<longrightarrow> ?examined = candidates upperBound"
    by (auto simp: determineLongestChain_def determineLongestChain_run_def candidates_from_0)
  from pre have "set ?examined \<subseteq> set (candidates upperBound)"
    by (metis set_take_subset)
  then have ge: "\<forall>a\<in>set ?examined. 1 \<le> a"
    by (auto simp: set_candidates)
  then have zero: "0 \<notin> set ?examined" by auto
  have returns: "determineLongestChain upperBound \<noteq> None
        \<longleftrightarrow> (\<forall>i\<in>set (candidates upperBound). collatzChainLength i \<noteq> None)"
    unfolding determineLongestChain_def determineLongestChain_run_def
      searchLoop_returns_iff candidates_from_0 set_candidates_from by blast
  from ge zero pre full have "(\<forall>a\<in>set ?examined. 1 \<le> a) \<and> 0 \<notin> set ?examined
      \<and> ?examined = take (length ?examined) (candidates upperBound)
      \<and> (determineLongestChain upperBound \<noteq> None \<longrightarrow>
           ?examined = candidates upperBound \<and> length ?examined = unat upperBound)"
    by (simp add: length_candidates)
  with returns show ?thesis by blast
qed

theorem determineLongestChain_examines_witness:
  "determineLongestChain 7 = Some (7, 17)
   \<and> snd (determineLongestChain_run 7) = [1, 2, 3, 4, 5, 6, 7]
   \<and> length (snd (determineLongestChain_run 7)) = 7
   \<and> 0 \<notin> set (snd (determineLongestChain_run 7))"
proof -
  have "determineLongestChain 7 = Some (7, 17)"
    by (simp add: determineLongestChain_def determineLongestChain_run_def
        collatzChainLength_def collatzChainLength_run_def chainLoop.simps nextTerm_def)
  with determineLongestChain_examines [of 7] show ?thesis
    by (simp add: candidates_7)
qed

text \<open>
  Claim C8. \<^verbatim>\<open>determineLongestChain(0)\<close> hands no argument to
  \<^verbatim>\<open>collatzChainLength\<close> and returns the initial pair \<open>(1, 1)\<close>.
\<close>

theorem determineLongestChain_zero:
  "determineLongestChain_run 0 = (Some (1, 1), []) \<and> determineLongestChain 0 = Some (1, 1)"
  by (simp add: determineLongestChain_def determineLongestChain_run_def)

section \<open>The default upper bound\<close>

text \<open>
  Claim C4 does not hold of the program. The default upper bound is 1000000, and
  the candidate 159487 is below it: the 60th term of its chain is the odd number
  1699000271, whose Collatz successor 5097000814 is not below \<open>2 ^ 32\<close>;
  \<^verbatim>\<open>nextTerm\<close> returns 802033518 instead, and \<^verbatim>\<open>collatzChainLength\<close> returns 246 for
  a chain that has 184 terms.
\<close>

theorem chain_of_159487_wraps:
  "159487 \<in> set (candidates 1000000)
   \<and> (nextTerm ^^ 59) 159487 = 1699000271
   \<and> collatz_step (unat (1699000271 :: u32)) = 5097000814
   \<and> unat (nextTerm 1699000271) = 802033518
   \<and> collatzChainLength 159487 = Some 246
   \<and> (collatz_step ^^ 183) 159487 = 1"
proof -
  have "159487 \<in> set (candidates 1000000)"
    by (simp add: set_candidates)
  moreover have "(nextTerm ^^ 59) 159487 = 1699000271"
    by (simp add: funpow_numeral_shift nextTerm_def)
  moreover have "collatz_step (unat (1699000271 :: u32)) = 5097000814"
    by (simp add: collatz_step_def)
  moreover have "unat (nextTerm 1699000271) = 802033518"
    by (simp add: nextTerm_def)
  moreover have "collatzChainLength 159487 = Some 246"
    by (simp add: collatzChainLength_def collatzChainLength_run_def chainLoop.simps nextTerm_def)
  moreover have "(collatz_step ^^ 183) 159487 = 1"
    by (simp add: funpow_numeral_shift collatz_step_def)
  ultimately show ?thesis by blast
qed

text \<open>
  The candidate 837799 of the spec's reference result for 1000000: the program counts
  525 terms in its chain.
\<close>

lemma collatzChainLength_837799: "collatzChainLength 837799 = Some 525"
  by (simp add: collatzChainLength_def collatzChainLength_run_def chainLoop.simps nextTerm_def)

section \<open>determineLongestChain on the heap\<close>

lemma store_result_same: "store_result p (result_at p h) h = h"
  by (simp add: store_result_def result_at_def)

lemma store_result_twice: "store_result p r (store_result p r' h) = store_result p r h"
  by (simp add: store_result_def)

lemma result_at_store: "result_at p (store_result p r h) = r"
  by (simp add: store_result_def result_at_def)

lemma searchLoop_heap_refines:
  "searchLoop_heap upperBound i p h
     = map_option (\<lambda>r. store_result p r h)
         (fst (searchLoop upperBound i (result_at p h) examined))"
proof (induction upperBound i "result_at p h" examined arbitrary: h rule: searchLoop.induct)
  case (1 upperBound i examined)
  show ?case
  proof (cases "i < upperBound")
    case False
    then show ?thesis
      by (subst searchLoop_heap.simps, subst searchLoop.simps) (simp add: store_result_same)
  next
    case True
    show ?thesis
    proof (cases "collatzChainLength (i + 1)")
      case None
      with True show ?thesis
        by (subst searchLoop_heap.simps, subst searchLoop.simps) simp
    next
      case (Some c)
      define h' where "h' = (if c > cells h (p + 1)
        then h\<lparr>cells := (cells h)(p := i + 1, p + 1 := c)\<rparr> else h)"
      have h'_store: "h' = store_result p
        (if c > snd (result_at p h) then (i + 1, c) else result_at p h) h"
        by (simp add: h'_def store_result_def result_at_def)
      then have read: "result_at p h'
        = (if c > snd (result_at p h) then (i + 1, c) else result_at p h)"
        by (simp add: result_at_store)
      from "1.hyps" [OF True Some read [symmetric]]
      have "searchLoop_heap upperBound (i + 1) p h'
        = map_option (\<lambda>r. store_result p r h')
            (fst (searchLoop upperBound (i + 1) (result_at p h') (examined @ [i + 1])))" .
      moreover have "store_result p r h' = store_result p r h" for r
        by (simp add: h'_store store_result_twice)
      moreover have "searchLoop_heap upperBound i p h = searchLoop_heap upperBound (i + 1) p h'"
        using True Some by (subst searchLoop_heap.simps) (simp add: h'_def)
      moreover have "fst (searchLoop upperBound i (result_at p h) examined)
        = fst (searchLoop upperBound (i + 1) (result_at p h') (examined @ [i + 1]))"
        using True Some by (subst searchLoop.simps) (simp add: read)
      ultimately show ?thesis by simp
    qed
  qed
qed

lemma determineLongestChain_heap_refines:
  "determineLongestChain_heap h upperBound
     = map_option (\<lambda>r. (brk h, store_result (brk h) r (h\<lparr>brk := brk h + 2\<rparr>)))
         (determineLongestChain upperBound)"
proof -
  define h2 where "h2 = store_result (brk h) (1, 1) (h\<lparr>brk := brk h + 2\<rparr>)"
  have "determineLongestChain_heap h upperBound
      = map_option (Pair (brk h)) (searchLoop_heap upperBound 0 (brk h) h2)"
    by (simp add: determineLongestChain_heap_def malloc_def h2_def store_result_def
        fun_upd_twist Let_def del: searchLoop_heap.simps)
  also have "searchLoop_heap upperBound 0 (brk h) h2
      = map_option (\<lambda>r. store_result (brk h) r h2)
          (fst (searchLoop upperBound 0 (result_at (brk h) h2) []))"
    by (rule searchLoop_heap_refines)
  also have "result_at (brk h) h2 = (1, 1)"
    by (simp add: h2_def result_at_store)
  also have "(\<lambda>r. store_result (brk h) r h2)
      = (\<lambda>r. store_result (brk h) r (h\<lparr>brk := brk h + 2\<rparr>))"
    by (simp add: h2_def store_result_twice)
  finally show ?thesis
    by (simp add: determineLongestChain_def determineLongestChain_run_def
        option.map_comp comp_def)
qed

text \<open>
  Claim C9. Whatever the heap holds when \<^verbatim>\<open>determineLongestChain\<close> is called (the
  blocks and contents left by earlier calls included), the pair read through the
  returned pointer is the function \<open>determineLongestChain\<close> of \<open>upperBound\<close> alone: two
  calls from any two heaps give the same pair, and of two calls in sequence the
  second returns a fresh block with the same pair and leaves the first block as it
  was.
\<close>

theorem determineLongestChain_deterministic:
  "map_option (\<lambda>(p, h'). result_at p h') (determineLongestChain_heap h upperBound)
     = determineLongestChain upperBound
   \<and> map_option (\<lambda>(p, h'). result_at p h') (determineLongestChain_heap h upperBound)
     = map_option (\<lambda>(p, h'). result_at p h') (determineLongestChain_heap g upperBound)
   \<and> Option.bind (determineLongestChain_heap h upperBound) (\<lambda>(p1, h1).
       Option.bind (determineLongestChain_heap h1 upperBound) (\<lambda>(p2, h2).
         Some (result_at p1 h1, result_at p1 h2, result_at p2 h2)))
     = map_option (\<lambda>r. (r, r, r)) (determineLongestChain upperBound)"
proof -
  have read: "map_option (\<lambda>(p, h'). result_at p h') (determineLongestChain_heap h upperBound)
     = determineLongestChain upperBound" for h
    by (simp add: determineLongestChain_heap_refines option.map_comp comp_def
        result_at_store option.map_ident)
  have seq: "Option.bind (determineLongestChain_heap h upperBound) (\<lambda>(p1, h1).
       Option.bind (determineLongestChain_heap h1 upperBound) (\<lambda>(p2, h2).
         Some (result_at p1 h1, result_at p1 h2, result_at p2 h2)))
     = map_option (\<lambda>r. (r, r, r)) (determineLongestChain upperBound)"
  proof (cases "determineLongestChain upperBound")
    case None
    then show ?thesis by (simp add: determineLongestChain_heap_refines)
  next
    case (Some r)
    then show ?thesis
      by (simp add: determineLongestChain_heap_refines result_at_store)
        (simp add: store_result_def result_at_def)
  qed
  from read [of h] read [of g] seq show ?thesis by simp
qed


end
